theory Spec2Isabelle
  imports Main
begin

section \<open>Errors\<close>

text \<open>
  Go errors as values. \<open>New msg\<close> is a plain error carrying a message;
  \<open>Wrapped msg cause\<close> is an error that wraps another one under a message, as
  \<^verbatim>\<open>fmt.Errorf("msg: %w", err)\<close> and \<^verbatim>\<open>errors.Wrap(err, "msg")\<close> build it.
\<close>

datatype error = New string | Wrapped string error

section \<open>The git commit tagger (pkg/skaffold/build/tag/git_commit.go)\<close>

subsection \<open>Strings and the two regular expressions of sanitizeTag\<close>

text \<open>
  A Go string is a sequence of bytes, here a \<^typ>\<open>string\<close> (a list of 8-bit characters);
  \<^verbatim>\<open>len\<close> counts bytes. The regexp package walks a string rune by rune: a byte below
  0x80 is a rune of width 1, and any other position is decoded as UTF-8, an ill-formed
  sequence being one rune (U+FFFD) of width 1. \<open>runeWidth\<close> is the width that
  \<^verbatim>\<open>utf8.DecodeRuneInString\<close> returns at the head of a string.
\<close>

definition byte :: "char \<Rightarrow> nat" where
  "byte c = of_char c"

definition inRange :: "nat \<Rightarrow> nat \<Rightarrow> string \<Rightarrow> nat \<Rightarrow> bool" where
  \<comment> \<open>the byte at index \<open>i\<close> exists and lies in \<open>lo..hi\<close>\<close>
  "inRange lo hi s i \<longleftrightarrow> i < length s \<and> lo \<le> byte (s ! i) \<and> byte (s ! i) \<le> hi"

definition runeWidth :: "string \<Rightarrow> nat" where
  "runeWidth s =
     (if s = [] then 0
      else let s0 = byte (s ! 0) in
        if s0 < 0x80 then 1
        else if s0 < 0xC2 \<or> 0xF4 < s0 then 1
        else let sz = (if s0 < 0xE0 then 2 else if s0 < 0xF0 then 3 else (4::nat));
                 lo = (if s0 = 0xE0 then 0xA0 else if s0 = 0xF0 then 0x90 else 0x80);
                 hi = (if s0 = 0xED then 0x9F else if s0 = 0xF4 then 0x8F else 0xBF)
             in if length s < sz then 1
                else if \<not> inRange lo hi s 1 then 1
                else if sz \<le> 2 then 2
                else if \<not> inRange 0x80 0xBF s 2 then 1
                else if sz \<le> 3 then 3
                else if \<not> inRange 0x80 0xBF s 3 then 1
                else 4)"

text \<open>The character class \<^verbatim>\<open>[a-zA-Z0-9-._]\<close>: the characters docker allows in a tag.\<close>

definition supported :: "char \<Rightarrow> bool" where
  "supported c \<longleftrightarrow>
     (byte CHR ''a'' \<le> byte c \<and> byte c \<le> byte CHR ''z'') \<or>
     (byte CHR ''A'' \<le> byte c \<and> byte c \<le> byte CHR ''Z'') \<or>
     (byte CHR ''0'' \<le> byte c \<and> byte c \<le> byte CHR ''9'') \<or>
     c = CHR ''-'' \<or> c = CHR ''.'' \<or> c = CHR ''_''"

text \<open>
  \<^verbatim>\<open>regexp.MustCompile(`[^a-zA-Z0-9-._]`).ReplaceAllString(tag, `_`)\<close>: every rune
  outside the class is one match and becomes one underscore; the runes of the class are
  single bytes and are copied.
\<close>

function replaceUnsupported :: "string \<Rightarrow> string" where
  "replaceUnsupported [] = []"
| "replaceUnsupported (c # cs) =
     (if supported c then c # replaceUnsupported cs
      else CHR ''_'' # replaceUnsupported (drop (runeWidth (c # cs) - 1) cs))"
  by pat_completeness auto
termination
  by (relation "measure length") auto

text \<open>
  \<^verbatim>\<open>regexp.MustCompile(`([-.]*)(.*)`).FindStringSubmatch(s)\<close>: the match starts at
  index 0; group 1 is the longest run of \<open>-\<close> and \<open>.\<close> at the start, group 2 the rest
  up to the first newline, which \<open>.\<close> does not match. The result is the pair of
  the groups \<open>(prefixSuffix[1], prefixSuffix[2])\<close>.
\<close>

definition dashOrDot :: "char \<Rightarrow> bool" where
  "dashOrDot c \<longleftrightarrow> c = CHR ''-'' \<or> c = CHR ''.''"

definition findPrefixSuffix :: "string \<Rightarrow> string \<times> string" where
  "findPrefixSuffix s =
     (takeWhile dashOrDot s, takeWhile (\<lambda>c. c \<noteq> CHR 0x0A) (dropWhile dashOrDot s))"

subsection \<open>sanitizeTag\<close>

text \<open>
  The returned string of \<^verbatim>\<open>sanitizeTag\<close>. The warning it logs when the tag was
  changed is not part of the value and is left out.
\<close>

definition sanitizeTag :: "string \<Rightarrow> string" where
  "sanitizeTag tag =
     (let sanitized = replaceUnsupported tag;
          prefixSuffix = findPrefixSuffix sanitized;
          sanitized = replicate (length (fst prefixSuffix)) CHR ''_'' @ snd prefixSuffix
      in if length sanitized > 128 then take 128 sanitized else sanitized)"

text \<open>
  The second step in words, for comparison with the code: each leading \<open>-\<close> or \<open>.\<close>
  becomes an underscore and nothing else changes.
\<close>

definition underscoreLeading :: "string \<Rightarrow> string" where
  "underscoreLeading s =
     replicate (length (takeWhile dashOrDot s)) CHR ''_'' @ dropWhile dashOrDot s"

subsection \<open>Running git\<close>

text \<open>
  The tagger reaches the outside world through \<^verbatim>\<open>util.RunCmdOut\<close> (which is not
  among the source files at hand and runs a process), \<^verbatim>\<open>bytes.TrimSpace\<close> and three
  functions of \<^verbatim>\<open>path/filepath\<close>. They are the fields of an environment that every
  function below takes as a parameter; nothing is assumed about them.
  \<open>util_RunCmdOut env dir name args\<close> is the output of the command \<open>name args\<close> run
  in the directory \<open>dir\<close>, or its error.
\<close>

record env =
  util_RunCmdOut :: "string \<Rightarrow> string \<Rightarrow> string list \<Rightarrow> error + string"
  bytes_TrimSpace :: "string \<Rightarrow> string"
  filepath_Abs :: "string \<Rightarrow> error + string"
  filepath_EvalSymlinks :: "string \<Rightarrow> error + string"
  filepath_Rel :: "string \<Rightarrow> string \<Rightarrow> error + string"

definition runGit :: "env \<Rightarrow> string \<Rightarrow> string list \<Rightarrow> error + string" where
  "runGit env workingDir arg =
     (case util_RunCmdOut env workingDir ''git'' arg of
        Inl err \<Rightarrow> Inl err
      | Inr out \<Rightarrow> Inr (bytes_TrimSpace env out))"

definition getGitPathToWorkdir :: "env \<Rightarrow> string \<Rightarrow> error + string" where
  "getGitPathToWorkdir env workingDir =
     (case filepath_Abs env workingDir of
        Inl err \<Rightarrow> Inl err
      | Inr absWorkingDir \<Rightarrow>
          (case filepath_EvalSymlinks env absWorkingDir of
             Inl err \<Rightarrow> Inl err
           | Inr absWorkingDir \<Rightarrow>
               (case runGit env workingDir [''rev-parse'', ''--show-toplevel''] of
                  Inl err \<Rightarrow> Inl err
                | Inr gitRoot \<Rightarrow> filepath_Rel env gitRoot absWorkingDir)))"

subsection \<open>The tagger\<close>

text \<open>The variants are the untyped integer constants of the \<^verbatim>\<open>iota\<close> block.\<close>

definition tags :: int where "tags = 0"
definition commitSha :: int where "commitSha = 1"
definition abbrevCommitSha :: int where "abbrevCommitSha = 2"
definition treeSha :: int where "treeSha = 3"
definition abbrevTreeSha :: int where "abbrevTreeSha = 4"

record GitCommit =
  prefix :: string
  variant :: int

definition makeGitTag :: "env \<Rightarrow> GitCommit \<Rightarrow> string \<Rightarrow> error + string" where
  "makeGitTag env c workingDir =
     (if variant c = tags then
        runGit env workingDir [''describe'', ''--tags'', ''--always'']
      else if variant c = commitSha \<or> variant c = abbrevCommitSha then
        runGit env workingDir
          ([''rev-list'', ''-1'', ''HEAD''] @
           (if variant c = abbrevCommitSha then [''--abbrev-commit''] else []))
      else if variant c = treeSha \<or> variant c = abbrevTreeSha then
        (case getGitPathToWorkdir env workingDir of
           Inl err \<Rightarrow> Inl err
         | Inr gitPath \<Rightarrow>
             runGit env workingDir
               ([''rev-parse''] @
                (if variant c = abbrevTreeSha then [''--short''] else []) @
                [''HEAD:'' @ gitPath @ ''/'']))
      else Inl (New (''invalid git tag variant: defaulting to '' @
                     [CHR 0x27] @ ''dirty'' @ [CHR 0x27])))"

text \<open>
  \<^verbatim>\<open>GenerateFullyQualifiedImageName\<close> returns a name or an error (the Go function
  returns the empty string beside each error).
\<close>

definition GenerateFullyQualifiedImageName ::
    "env \<Rightarrow> GitCommit \<Rightarrow> string \<Rightarrow> string \<Rightarrow> error + string" where
  "GenerateFullyQualifiedImageName env c workingDir imageName =
     (case makeGitTag env c workingDir of
        Inl err \<Rightarrow> Inl (Wrapped ''unable to find git commit'' err)
      | Inr ref \<Rightarrow>
          (case runGit env workingDir [''status'', ''.'', ''--porcelain''] of
             Inl err \<Rightarrow> Inl (Wrapped ''getting git status'' err)
           | Inr changes \<Rightarrow>
               if length changes > 0 then
                 Inr (imageName @ '':'' @ prefix c @ ref @ ''-dirty'')
               else
                 Inr (imageName @ '':'' @ prefix c @ sanitizeTag ref)))"

section \<open>The event server (pkg/skaffold/event/server.go)\<close>

subsection \<open>Events, log entries and the state\<close>

text \<open>
  Modelled from the spec: the constants \<^verbatim>\<open>Build\<close>, \<^verbatim>\<open>Deploy\<close>, \<^verbatim>\<open>Port\<close> and
  \<^verbatim>\<open>InProgress\<close>, \<^verbatim>\<open>Complete\<close>, \<^verbatim>\<open>Failed\<close> that \<^verbatim>\<open>Handle\<close> compares with are declared
  outside the source files at hand, and so are the message types of package
  \<^verbatim>\<open>proto\<close>. Section 3 of the spec gives the kind as one of Build, Deploy, Port or
  something else, the status as one of InProgress, Complete, Failed or something else,
  a port descriptor as a structured value written \<open>{8080\<rightarrow>80}\<close>, and the state as a
  mapping from artifact to status, a deploy status and a sequence of port descriptors.
  The constants are distinct constructors; every other value of the wire is an
  \<open>OtherKind\<close> or an \<open>OtherStatus\<close>.
\<close>

datatype kind = Build | Deploy | Port | OtherKind string

datatype status = InProgress | Complete | Failed | OtherStatus string

record PortInfo =
  LocalPort :: nat
  RemotePort :: nat

text \<open>\<^verbatim>\<open>event.PortInfo\<close> is a pointer: \<open>None\<close> is nil.\<close>

record Event =
  EventType :: kind
  Artifact :: string
  Status :: status
  PortInfo :: "PortInfo option"
  Err :: string

record LogEntry =
  Timestamp :: nat
  Type :: kind
  Entry :: string
  Error :: string

text \<open>
  The three parts of \<^verbatim>\<open>proto.State\<close>, each field named by its path:
  \<^verbatim>\<open>state.BuildState.Artifacts\<close>, \<^verbatim>\<open>state.DeployState.Status\<close>,
  \<^verbatim>\<open>state.PortState.ForwardedPorts\<close>. The state, its three parts and the map of
  artifacts are taken to be allocated, as the assignments of \<^verbatim>\<open>Handle\<close> need them.
\<close>

record State =
  BuildState_Artifacts :: "string \<rightharpoonup> status"
  DeployState_Status :: status
  PortState_ForwardedPorts :: "PortInfo option list"

subsection \<open>The event handler\<close>

text \<open>
  Modelled from the spec: the handler \<^verbatim>\<open>ev\<close>, its methods \<^verbatim>\<open>logEvent\<close> and
  \<^verbatim>\<open>RegisterListener\<close> and its initial value are declared outside the source files
  at hand. From sections 2, 3 and 4.2 of the spec: the handler owns the state, the
  append-only log and the live listeners; \<open>Subscribe\<close> registers a new delivery
  endpoint; \<open>Append\<close> adds the entry to the end of the log, then delivers a copy of it
  to every live listener in registration order; state and log are created empty.
  A channel is named by a number. \<open>logEvent\<close> returns the channel sends it performs
  beside the new handler. The spec does not give the deploy status of the empty
  state: \<open>initialHandler\<close> takes it as a parameter.
\<close>

type_synonym chan = nat

record eventHandler =
  state :: State
  eventLog :: "LogEntry list"
  listeners :: "chan list"

definition RegisterListener :: "chan \<Rightarrow> eventHandler \<Rightarrow> eventHandler" where
  "RegisterListener listener ev = ev\<lparr>listeners := listeners ev @ [listener]\<rparr>"

definition logEvent :: "LogEntry \<Rightarrow> eventHandler \<Rightarrow> (chan \<times> LogEntry) list \<times> eventHandler" where
  "logEvent entry ev =
     (map (\<lambda>c. (c, entry)) (listeners ev), ev\<lparr>eventLog := eventLog ev @ [entry]\<rparr>)"

definition initialHandler :: "status \<Rightarrow> eventHandler" where
  "initialHandler deployStatus =
     \<lparr>state = \<lparr>BuildState_Artifacts = Map.empty, DeployState_Status = deployStatus,
               PortState_ForwardedPorts = []\<rparr>,
      eventLog = [], listeners = []\<rparr>"

subsection \<open>GetState and Handle\<close>

definition GetState :: "eventHandler \<Rightarrow> State \<times> error option" where
  "GetState ev = (state ev, None)"

text \<open>
  Lines 58 to 86 of \<^verbatim>\<open>Handle\<close>: the three conditionals, one after the other, each
  with its own test of the event type. The result is the local variable \<^verbatim>\<open>entry\<close>
  and the state after the assignments.
\<close>

definition Handle_update :: "Event \<Rightarrow> State \<Rightarrow> string \<times> State" where
  "Handle_update event st =
     (let entry = [];
          (entry, st) =
            (if EventType event = Build then
               (let st = st\<lparr>BuildState_Artifacts :=
                             (BuildState_Artifacts st)(Artifact event \<mapsto> Status event)\<rparr>
                in (case Status event of
                      InProgress \<Rightarrow> (''Build started for artifact '' @ Artifact event, st)
                    | Complete \<Rightarrow> (''Build completed for artifact '' @ Artifact event, st)
                    | Failed \<Rightarrow> (''Build failed for artifact '' @ Artifact event, st)
                    | OtherStatus _ \<Rightarrow> (entry, st)))
             else (entry, st));
          (entry, st) =
            (if EventType event = Deploy then
               (let st = st\<lparr>DeployState_Status := Status event\<rparr>
                in (case Status event of
                      InProgress \<Rightarrow> (''Deploy started'', st)
                    | Complete \<Rightarrow> (''Deploy complete'', st)
                    | Failed \<Rightarrow> (''Deploy failed'', st)
                    | OtherStatus _ \<Rightarrow> (entry, st)))
             else (entry, st));
          st =
            (if EventType event = Port then
               st\<lparr>PortState_ForwardedPorts := PortState_ForwardedPorts st @ [PortInfo event]\<rparr>
             else st)
      in (entry, st))"

text \<open>
  \<^verbatim>\<open>Handle\<close>: the update, then lines 92 to 98. \<open>now\<close> is what
  \<^verbatim>\<open>ptypes.TimestampNow()\<close> reads when the entry is built. The result is the returned
  pair (\<open>Inr ()\<close> is the empty message with a nil error), the channel sends of
  \<open>logEvent\<close> and the handler afterwards.
\<close>

definition Handle ::
    "nat \<Rightarrow> Event \<Rightarrow> eventHandler \<Rightarrow> (error + unit) \<times> (chan \<times> LogEntry) list \<times> eventHandler" where
  "Handle now event ev =
     (let (entry, st) = Handle_update event (state ev);
          ev = ev\<lparr>state := st\<rparr>;
          (sends, ev) = logEvent \<lparr>Timestamp = now, Type = EventType event,
                                  Entry = entry, Error = Err event\<rparr> ev
      in (Inr (), sends, ev))"

text \<open>A sequence of calls of \<open>Handle\<close>, each with the clock reading of its call.\<close>

fun HandleAll :: "(nat \<times> Event) list \<Rightarrow> eventHandler \<Rightarrow> eventHandler" where
  "HandleAll [] ev = ev"
| "HandleAll ((now, event) # rest) ev = HandleAll rest (snd (snd (Handle now event ev)))"

text \<open>
  The table of messages as the spec words it, for comparison with \<open>Handle_update\<close>.
\<close>

fun messageTable :: "kind \<Rightarrow> status \<Rightarrow> string \<Rightarrow> string" where
  "messageTable Build InProgress artifact = ''Build started for artifact '' @ artifact"
| "messageTable Build Complete artifact = ''Build completed for artifact '' @ artifact"
| "messageTable Build Failed artifact = ''Build failed for artifact '' @ artifact"
| "messageTable Deploy InProgress artifact = ''Deploy started''"
| "messageTable Deploy Complete artifact = ''Deploy complete''"
| "messageTable Deploy Failed artifact = ''Deploy failed''"
| "messageTable _ _ artifact = []"

subsection \<open>EventLog\<close>

text \<open>
  The stream to the remote peer is outside the program: \<open>outcome k\<close> is what the call
  number \<open>k\<close> of \<^verbatim>\<open>stream.Send\<close> returns (\<open>None\<close> is nil), and \<open>sent\<close> holds the
  entries the peer has been sent. Every call of \<open>Send\<close> in \<^verbatim>\<open>EventLog\<close> is followed
  by a return when it fails, so the calls made so far are the entries sent.
\<close>

record stream =
  outcome :: "nat \<Rightarrow> error option"
  sent :: "LogEntry list"

definition Send :: "stream \<Rightarrow> LogEntry \<Rightarrow> error option \<times> stream" where
  "Send str entry =
     (case outcome str (length (sent str)) of
        None \<Rightarrow> (None, str\<lparr>sent := sent str @ [entry]\<rparr>)
      | Some err \<Rightarrow> (Some err, str))"

text \<open>
  Lines 41 to 45, the loop over the log as it is when the loop is entered. \<open>None\<close>: the
  loop ran to its end; \<open>Some err\<close>: \<^verbatim>\<open>EventLog\<close> returns \<open>err\<close>.
\<close>

fun replay :: "LogEntry list \<Rightarrow> stream \<Rightarrow> error option \<times> stream" where
  "replay [] str = (None, str)"
| "replay (entry # rest) str =
     (case Send str entry of
        (Some err, str) \<Rightarrow> (Some err, str)
      | (None, str) \<Rightarrow> replay rest str)"

text \<open>
  Lines 49 to 54, the loop without an exit condition. Its input is the list of the
  entries that arrive on the channel. \<open>Some err\<close>: \<^verbatim>\<open>EventLog\<close> returns \<open>err\<close>;
  \<open>None\<close>: every entry was forwarded and the loop waits at the channel receive, so
  \<^verbatim>\<open>EventLog\<close> does not return.
\<close>

fun forward :: "LogEntry list \<Rightarrow> stream \<Rightarrow> error option \<times> stream" where
  "forward [] str = (None, str)"
| "forward (entry # rest) str =
     (case Send str entry of
        (Some err, str) \<Rightarrow> (Some err, str)
      | (None, str) \<Rightarrow> forward rest str)"

text \<open>
  \<^verbatim>\<open>EventLog\<close> run on its own: \<open>c\<close> names the channel that line 46 makes and
  \<open>arriving\<close> are the entries that arrive on it. The result is the returned error
  (\<open>None\<close> when the call does not return), the stream and the handler afterwards.
\<close>

definition EventLog ::
    "chan \<Rightarrow> LogEntry list \<Rightarrow> stream \<Rightarrow> eventHandler \<Rightarrow> error option \<times> stream \<times> eventHandler" where
  "EventLog c arriving str ev =
     (case replay (eventLog ev) str of
        (Some err, str) \<Rightarrow> (Some err, str, ev)
      | (None, str) \<Rightarrow>
          (let ev = RegisterListener c ev
           in (case forward arriving str of (res, str) \<Rightarrow> (res, str, ev))))"

subsection \<open>EventLog beside concurrent appends\<close>

text \<open>
  Any number of subscribers run \<^verbatim>\<open>EventLog\<close> while producers append. A subscriber is
  named by the channel that its call makes at line 46, and is at one of these points
  of the function:
  \<^item> \<open>AtEntry\<close>: before line 41;
  \<^item> \<open>Replaying rest\<close>: in the first loop, \<open>rest\<close> being what is left of the slice
    that \<^verbatim>\<open>range\<close> read when the loop was entered;
  \<^item> \<open>Receiving\<close>: registered and waiting at the receive of line 50;
  \<^item> \<open>Forwarding entry\<close>: registered, holding the entry received, before the send of
    line 51;
  \<^item> \<open>Returned err\<close>: after a return.
  The steps of the system:
  \<^item> \<open>Sub c\<close>: the subscriber \<open>c\<close> goes on to its next point. The entry into the
    loop, each send and the registration are steps of their own, as in the function:
    nothing joins them.
  \<^item> \<open>Append entry\<close>: a producer calls \<open>logEvent\<close>. The calls are taken one after the
    other, as the spec has \<open>Append\<close> guarded: a call starts when the sends of the
    call before are done. It adds the entry to the log; its channel sends are then
    \<open>pending\<close>, in the order of the listeners.
  \<^item> \<open>Deliver\<close>: the first pending send takes place. The channel of line 46 has no
    buffer, so the send completes only together with the receive of line 50: the
    step needs the subscriber of that channel to be \<open>Receiving\<close>.
  \<open>None\<close> means that the step cannot be taken: the subscriber waits at the receive or
  has returned, or the producer waits.
\<close>

datatype point =
    AtEntry
  | Replaying "LogEntry list"
  | Receiving
  | Forwarding LogEntry
  | Returned error

record system =
  handler :: eventHandler
  subscribers :: "chan \<Rightarrow> point"
  peers :: "chan \<Rightarrow> stream"
  pending :: "(chan \<times> LogEntry) list"

datatype action = Sub chan | Append LogEntry | Deliver

fun step :: "action \<Rightarrow> system \<Rightarrow> system option" where
  "step (Sub c) s =
     (case subscribers s c of
        AtEntry \<Rightarrow>
          Some (s\<lparr>subscribers := (subscribers s)(c := Replaying (eventLog (handler s)))\<rparr>)
      | Replaying [] \<Rightarrow>
          Some (s\<lparr>handler := RegisterListener c (handler s),
                  subscribers := (subscribers s)(c := Receiving)\<rparr>)
      | Replaying (entry # rest) \<Rightarrow>
          (case Send (peers s c) entry of
             (Some err, str) \<Rightarrow>
               Some (s\<lparr>subscribers := (subscribers s)(c := Returned err),
                       peers := (peers s)(c := str)\<rparr>)
           | (None, str) \<Rightarrow>
               Some (s\<lparr>subscribers := (subscribers s)(c := Replaying rest),
                       peers := (peers s)(c := str)\<rparr>))
      | Receiving \<Rightarrow> None
      | Forwarding entry \<Rightarrow>
          (case Send (peers s c) entry of
             (Some err, str) \<Rightarrow>
               Some (s\<lparr>subscribers := (subscribers s)(c := Returned err),
                       peers := (peers s)(c := str)\<rparr>)
           | (None, str) \<Rightarrow>
               Some (s\<lparr>subscribers := (subscribers s)(c := Receiving),
                       peers := (peers s)(c := str)\<rparr>))
      | Returned err \<Rightarrow> None)"
| "step (Append entry) s =
     (if pending s = [] then
        (let (sends, ev) = logEvent entry (handler s)
         in Some (s\<lparr>handler := ev, pending := sends\<rparr>))
      else None)"
| "step Deliver s =
     (case pending s of
        [] \<Rightarrow> None
      | (c, entry) # rest \<Rightarrow>
          (if subscribers s c = Receiving
           then Some (s\<lparr>subscribers := (subscribers s)(c := Forwarding entry), pending := rest\<rparr>)
           else None))"

fun run :: "action list \<Rightarrow> system \<Rightarrow> system option" where
  "run [] s = Some s"
| "run (a # as) s = (case step a s of None \<Rightarrow> None | Some s' \<Rightarrow> run as s')"

text \<open>The entries that a schedule appends, in order.\<close>

fun appended :: "action list \<Rightarrow> LogEntry list" where
  "appended [] = []"
| "appended (Append entry # as) = entry # appended as"
| "appended (a # as) = appended as"

text \<open>
  The entries of the append under way that are still to be sent on the channel \<open>c\<close>.
\<close>

definition outstanding :: "chan \<Rightarrow> system \<Rightarrow> LogEntry list" where
  "outstanding c s = map snd (filter (\<lambda>send. fst send = c) (pending s))"

text \<open>
  The system at the start: an empty log, no listener, no append under way, every
  subscriber about to enter \<^verbatim>\<open>EventLog\<close> with a stream on which nothing was sent.
\<close>

definition startSystem :: "status \<Rightarrow> (nat \<Rightarrow> error option) \<Rightarrow> system" where
  "startSystem deployStatus out =
     \<lparr>handler = initialHandler deployStatus, subscribers = (\<lambda>c. AtEntry),
      peers = (\<lambda>c. \<lparr>outcome = out, sent = []\<rparr>), pending = []\<rparr>"

text \<open>
  What is to be seen of a system from the subscriber \<open>c\<close>: the log, the listeners, the
  point of the subscriber, what its peer has been sent, and the pending sends.
\<close>

definition view ::
    "chan \<Rightarrow> system \<Rightarrow> LogEntry list \<times> chan list \<times> point \<times> LogEntry list \<times> (chan \<times> LogEntry) list" where
  "view c s =
     (eventLog (handler s), listeners (handler s), subscribers s c, sent (peers s c), pending s)"

subsection \<open>newStatusServer\<close>

text \<open>
  The network is outside the program. \<open>net_Listen\<close> stands for
  \<^verbatim>\<open>net.Listen("tcp", port)\<close>: \<open>binding\<close> decides, for an address, whether the bind
  fails or which listener it gives; the network records every address a bind was
  attempted on, the open listeners and the listeners a grpc server serves on. The
  function returned by \<^verbatim>\<open>newStatusServer\<close> is one of two closures: the empty one
  (\<open>NoOp\<close>), or the one of lines 119 to 122, which stops the server and closes the
  listener (\<open>StopAndClose\<close>); \<open>call\<close> runs it.
\<close>

type_synonym listener = nat

record network =
  attempts :: "string list"
  listening :: "listener list"
  serving :: "listener list"

definition net_Listen ::
    "(string \<Rightarrow> error + listener) \<Rightarrow> string \<Rightarrow> network \<Rightarrow> (error + listener) \<times> network" where
  "net_Listen binding address w =
     (case binding address of
        Inl err \<Rightarrow> (Inl err, w\<lparr>attempts := attempts w @ [address]\<rparr>)
      | Inr l \<Rightarrow> (Inr l, w\<lparr>attempts := attempts w @ [address], listening := listening w @ [l]\<rparr>))"

datatype stopFunction = NoOp | StopAndClose listener

fun call :: "stopFunction \<Rightarrow> network \<Rightarrow> network" where
  "call NoOp w = w"
| "call (StopAndClose l) w =
     w\<lparr>serving := removeAll l (serving w), listening := removeAll l (listening w)\<rparr>"

definition newStatusServer ::
    "(string \<Rightarrow> error + listener) \<Rightarrow> string \<Rightarrow> network \<Rightarrow>
     (stopFunction \<times> error option) \<times> network" where
  "newStatusServer binding port w =
     (if port = [] then ((NoOp, None), w)
      else
        (case net_Listen binding port w of
           (Inl err, w) \<Rightarrow> ((NoOp, Some (Wrapped ''creating listener'' err)), w)
         | (Inr l, w) \<Rightarrow> ((StopAndClose l, None), w\<lparr>serving := serving w @ [l]\<rparr>)))"

section \<open>Invariants of the interleaving\<close>

text \<open>
  \<open>unattached c s\<close>: the channel \<open>c\<close> is not a listener and no send on it is pending.
  \<open>held c s\<close>: the entry that the subscriber \<open>c\<close> has received and not yet sent on.
\<close>

definition unattached :: "chan \<Rightarrow> system \<Rightarrow> bool" where
  "unattached c s \<longleftrightarrow> c \<notin> set (listeners (handler s)) \<and> c \<notin> fst ` set (pending s)"

definition held :: "chan \<Rightarrow> system \<Rightarrow> LogEntry list" where
  "held c s = (case subscribers s c of Forwarding entry \<Rightarrow> [entry] | _ \<Rightarrow> [])"

text \<open>
  \<open>idle c str s\<close>: the subscriber \<open>c\<close> has not entered the function, and its stream is
  \<open>str\<close>.
\<close>

definition idle :: "chan \<Rightarrow> stream \<Rightarrow> system \<Rightarrow> bool" where
  "idle c str s \<longleftrightarrow> subscribers s c = AtEntry \<and> unattached c s \<and> peers s c = str"

text \<open>
  \<open>replaying c snapshot s\<close>: while the subscriber \<open>c\<close> is in the replay loop, it is
  unattached, and what it has sent followed by what is left of its slice is \<open>snapshot\<close>.
\<close>

definition replaying :: "chan \<Rightarrow> LogEntry list \<Rightarrow> system \<Rightarrow> bool" where
  "replaying c snapshot s \<longleftrightarrow>
     (case subscribers s c of
        AtEntry \<Rightarrow> False
      | Replaying rest \<Rightarrow> sent (peers s c) @ rest = snapshot \<and> unattached c s
      | _ \<Rightarrow> True)"

text \<open>
  \<open>live c got s\<close>: while the subscriber \<open>c\<close> is in the second loop, its channel is a
  listener once, and what it has sent, the entry it holds and the entries still to be
  sent to it are together \<open>got\<close>.
\<close>

definition live :: "chan \<Rightarrow> LogEntry list \<Rightarrow> system \<Rightarrow> bool" where
  "live c got s \<longleftrightarrow>
     (case subscribers s c of
        AtEntry \<Rightarrow> False
      | Replaying rest \<Rightarrow> False
      | Returned err \<Rightarrow> True
      | _ \<Rightarrow> count_list (listeners (handler s)) c = 1 \<and>
             sent (peers s c) @ held c s @ outstanding c s = got)"

section \<open>Inputs of the examples\<close>

text \<open>A stream whose first \<open>n\<close> sends succeed and whose later sends return \<open>err\<close>.\<close>

definition failsFrom :: "nat \<Rightarrow> error \<Rightarrow> nat \<Rightarrow> error option" where
  "failsFrom n err k = (if k < n then None else Some err)"

definition exampleEntry :: "nat \<Rightarrow> LogEntry" where
  "exampleEntry n = \<lparr>Timestamp = n, Type = Deploy, Entry = ''Deploy started'', Error = []\<rparr>"

text \<open>A network on which every bind fails with \<open>err\<close>.\<close>

definition refusing :: "error \<Rightarrow> string \<Rightarrow> error + listener" where
  "refusing err address = Inl err"

text \<open>
  An environment in which \<^verbatim>\<open>git status . --porcelain\<close> prints \<open>status\<close>, every other
  git command prints \<open>described\<close>, and nothing is trimmed.
\<close>

definition gitStub :: "string \<Rightarrow> string \<Rightarrow> env" where
  "gitStub described status =
     \<lparr>util_RunCmdOut = (\<lambda>dir name args. if args = [''status'', ''.'', ''--porcelain'']
                          then Inr status else Inr described),
      bytes_TrimSpace = (\<lambda>s. s),
      filepath_Abs = Inr, filepath_EvalSymlinks = Inr, filepath_Rel = (\<lambda>a b. Inr b)\<rparr>"

text \<open>
  A handler that has seen a build of artifact \<open>a\<close> start, a deploy start and the port
  8080 forwarded to 80, and an event of each kind; the Port event carries the port
  that is forwarded already.
\<close>

definition exampleHandler :: eventHandler where
  "exampleHandler =
     \<lparr>state = \<lparr>BuildState_Artifacts = [''a'' \<mapsto> InProgress], DeployState_Status = InProgress,
               PortState_ForwardedPorts = [Some \<lparr>LocalPort = 8080, RemotePort = 80\<rparr>]\<rparr>,
      eventLog = [], listeners = []\<rparr>"

definition exampleEvent :: "kind \<Rightarrow> Event" where
  "exampleEvent k =
     \<lparr>EventType = k, Artifact = ''b'', Status = Failed,
      PortInfo = Some \<lparr>LocalPort = 8080, RemotePort = 80\<rparr>, Err = ''exit status 1''\<rparr>"

section \<open>Properties of the tagger\<close>

subsection \<open>sanitizeTag\<close>

lemma supported_underscore: "supported CHR ''_''"
  by (simp add: supported_def)

lemma replaceUnsupported_supported: "c \<in> set (replaceUnsupported s) \<Longrightarrow> supported c"
proof (induction s rule: replaceUnsupported.induct)
  case 1
  then show ?case by simp
next
  case (2 d ds)
  show ?case
  proof (cases "supported d")
    case True
    with 2 show ?thesis by (simp split: if_splits) blast
  next
    case False
    with 2 show ?thesis by (simp split: if_splits) (use supported_underscore in blast)
  qed
qed

lemma supported_not_newline: "supported c \<Longrightarrow> c \<noteq> CHR 0x0A"
  by (auto simp: supported_def byte_def)

text \<open>The first step leaves no newline, so the second group is the whole rest.\<close>

lemma findPrefixSuffix_snd:
  assumes "\<And>c. c \<in> set s \<Longrightarrow> supported c"
  shows "snd (findPrefixSuffix s) = dropWhile dashOrDot s"
proof -
  have "\<And>c. c \<in> set (dropWhile dashOrDot s) \<Longrightarrow> c \<noteq> CHR 0x0A"
    using assms supported_not_newline set_dropWhileD by metis
  then show ?thesis by (simp add: findPrefixSuffix_def)
qed

lemma underscoreLeading_length: "length (underscoreLeading s) = length s"
  unfolding underscoreLeading_def
  by (metis length_append length_replicate takeWhile_dropWhile_id)

lemma underscoreLeading_supported:
  assumes "\<And>c. c \<in> set s \<Longrightarrow> supported c" and "c \<in> set (underscoreLeading s)"
  shows "supported c"
  using assms unfolding underscoreLeading_def
  by (auto simp: supported_underscore dest: set_dropWhileD)

lemma underscoreLeading_hd:
  "underscoreLeading s \<noteq> [] \<Longrightarrow> \<not> dashOrDot (hd (underscoreLeading s))"
proof (cases "takeWhile dashOrDot s = []")
  case True
  assume "underscoreLeading s \<noteq> []"
  with True have ne: "dropWhile dashOrDot s \<noteq> []" by (simp add: underscoreLeading_def)
  then have "\<not> dashOrDot (hd (dropWhile dashOrDot s))" by (rule hd_dropWhile)
  with True show ?thesis by (simp add: underscoreLeading_def)
next
  case False
  then have "hd (underscoreLeading s) = CHR ''_''"
    by (cases "takeWhile dashOrDot s") (simp_all add: underscoreLeading_def)
  then show ?thesis by (simp add: dashOrDot_def)
qed

lemma sanitizeTag_eq: "sanitizeTag tag = take 128 (underscoreLeading (replaceUnsupported tag))"
proof -
  have "snd (findPrefixSuffix (replaceUnsupported tag)) =
        dropWhile dashOrDot (replaceUnsupported tag)"
    by (rule findPrefixSuffix_snd) (rule replaceUnsupported_supported)
  moreover have "fst (findPrefixSuffix (replaceUnsupported tag)) =
        takeWhile dashOrDot (replaceUnsupported tag)"
    by (simp add: findPrefixSuffix_def)
  ultimately show ?thesis
    by (simp add: sanitizeTag_def Let_def underscoreLeading_def)
qed

lemma hd_take_pos: "0 < n \<Longrightarrow> xs \<noteq> [] \<Longrightarrow> hd (take n xs) = hd xs"
  by (cases xs; cases n) simp_all

lemma sanitizeTag_example: "sanitizeTag ''-.v1.0/foo bar'' = ''__v1.0_foo_bar''"
  by code_simp

lemma sanitizeTag_example_slash: "sanitizeTag ''-v1/x'' = ''_v1_x''"
  by code_simp

text \<open>
  C9. For every input string, \<open>sanitizeTag\<close> returns a string of at most 128 bytes,
  all of them among \<open>a-z\<close>, \<open>A-Z\<close>, \<open>0-9\<close>, \<open>-\<close>, \<open>.\<close>, \<open>_\<close>, that does not begin
  with \<open>-\<close> or \<open>.\<close>: it is the first 128 bytes of the tag with every rune outside the
  class replaced by an underscore and then every leading \<open>-\<close> or \<open>.\<close> replaced by
  an underscore.
\<close>

theorem sanitizeTag_docker_tag:
  "length (sanitizeTag tag) \<le> 128 \<and>
   (\<forall>c \<in> set (sanitizeTag tag). supported c) \<and>
   (sanitizeTag tag \<noteq> [] \<longrightarrow>
      hd (sanitizeTag tag) \<noteq> CHR ''-'' \<and> hd (sanitizeTag tag) \<noteq> CHR ''.'') \<and>
   sanitizeTag tag = take 128 (underscoreLeading (replaceUnsupported tag))"
proof (intro conjI impI)
  show "length (sanitizeTag tag) \<le> 128" by (simp add: sanitizeTag_eq)
  show "\<forall>c \<in> set (sanitizeTag tag). supported c"
  proof
    fix c assume "c \<in> set (sanitizeTag tag)"
    then have "c \<in> set (underscoreLeading (replaceUnsupported tag))"
      by (auto simp: sanitizeTag_eq dest: in_set_takeD)
    then show "supported c"
      by (rule underscoreLeading_supported [rotated]) (rule replaceUnsupported_supported)
  qed
  show "sanitizeTag tag = take 128 (underscoreLeading (replaceUnsupported tag))"
    by (rule sanitizeTag_eq)
  assume ne: "sanitizeTag tag \<noteq> []"
  then have u: "underscoreLeading (replaceUnsupported tag) \<noteq> []"
    by (auto simp: sanitizeTag_eq)
  then have "hd (sanitizeTag tag) = hd (underscoreLeading (replaceUnsupported tag))"
    by (simp add: sanitizeTag_eq hd_take_pos)
  with underscoreLeading_hd [OF u]
  show "hd (sanitizeTag tag) \<noteq> CHR ''-''" "hd (sanitizeTag tag) \<noteq> CHR ''.''"
    by (auto simp: dashOrDot_def)
qed

theorem sanitizeTag_docker_tag_witness:
  "sanitizeTag ''-.v1.0/foo bar'' = ''__v1.0_foo_bar'' \<and>
   length (sanitizeTag ''-.v1.0/foo bar'') \<le> 128 \<and>
   list_all supported (sanitizeTag ''-.v1.0/foo bar'') \<and>
   hd (sanitizeTag ''-.v1.0/foo bar'') \<noteq> CHR ''-'' \<and>
   hd (sanitizeTag ''-.v1.0/foo bar'') \<noteq> CHR ''.''"
proof -
  have "length (sanitizeTag ''-.v1.0/foo bar'') \<le> 128 \<and>
        (\<forall>c \<in> set (sanitizeTag ''-.v1.0/foo bar''). supported c) \<and>
        (sanitizeTag ''-.v1.0/foo bar'' \<noteq> [] \<longrightarrow>
           hd (sanitizeTag ''-.v1.0/foo bar'') \<noteq> CHR ''-'' \<and>
           hd (sanitizeTag ''-.v1.0/foo bar'') \<noteq> CHR ''.'')"
    using sanitizeTag_docker_tag [of "''-.v1.0/foo bar''"] by blast
  then show ?thesis
    unfolding sanitizeTag_example by (simp add: list_all_iff)
qed

subsection \<open>GenerateFullyQualifiedImageName\<close>

text \<open>
  C10. \<open>GenerateFullyQualifiedImageName\<close> applies \<open>sanitizeTag\<close> to the git reference
  only when the tree is clean: when git status prints anything, the name is the image
  name, a colon, the prefix, the reference as git printed it and \<open>-dirty\<close>; the prefix
  is copied as it is in both cases.
\<close>

theorem GenerateFullyQualifiedImageName_sanitizes_clean_ref_only:
  assumes "makeGitTag env c workingDir = Inr ref"
    and "runGit env workingDir [''status'', ''.'', ''--porcelain''] = Inr changes"
  shows "GenerateFullyQualifiedImageName env c workingDir imageName =
           (if length changes > 0 then Inr (imageName @ '':'' @ prefix c @ ref @ ''-dirty'')
            else Inr (imageName @ '':'' @ prefix c @ sanitizeTag ref))"
  using assms by (simp add: GenerateFullyQualifiedImageName_def)

theorem GenerateFullyQualifiedImageName_sanitizes_clean_ref_only_witness:
  "GenerateFullyQualifiedImageName (gitStub ''-v1/x'' ''M main.go'')
      \<lparr>prefix = ''.p/'', variant = tags\<rparr> ''.'' ''img'' = Inr ''img:.p/-v1/x-dirty'' \<and>
   GenerateFullyQualifiedImageName (gitStub ''-v1/x'' [])
      \<lparr>prefix = ''.p/'', variant = tags\<rparr> ''.'' ''img'' = Inr ''img:.p/_v1_x''"
proof -
  have tag: "makeGitTag (gitStub d s) \<lparr>prefix = ''.p/'', variant = tags\<rparr> ''.'' = Inr d" for d s
    by (simp add: makeGitTag_def runGit_def gitStub_def)
  have st: "runGit (gitStub d s) ''.'' [''status'', ''.'', ''--porcelain''] = Inr s" for d s
    by (simp add: runGit_def gitStub_def)
  show ?thesis
    using GenerateFullyQualifiedImageName_sanitizes_clean_ref_only
            [OF tag st, of "''-v1/x''" "''M main.go''" "''img''"]
      GenerateFullyQualifiedImageName_sanitizes_clean_ref_only
            [OF tag st, of "''-v1/x''" "[]" "''img''"]
    by (simp add: sanitizeTag_example_slash)
qed

section \<open>Properties of the event server\<close>

subsection \<open>Handle\<close>

lemma Handle_update_entry:
  "fst (Handle_update event st) = messageTable (EventType event) (Status event) (Artifact event)"
  by (cases "EventType event"; cases "Status event") (simp_all add: Handle_update_def)

lemma Handle_update_state:
  "snd (Handle_update event st) =
     (if EventType event = Build then
        st\<lparr>BuildState_Artifacts := (BuildState_Artifacts st)(Artifact event \<mapsto> Status event)\<rparr>
      else if EventType event = Deploy then st\<lparr>DeployState_Status := Status event\<rparr>
      else if EventType event = Port then
        st\<lparr>PortState_ForwardedPorts := PortState_ForwardedPorts st @ [PortInfo event]\<rparr>
      else st)"
  by (cases "EventType event"; cases "Status event") (simp_all add: Handle_update_def)

lemma Handle_eq:
  "Handle now event ev =
     (Inr (),
      map (\<lambda>c. (c, \<lparr>Timestamp = now, Type = EventType event,
                     Entry = fst (Handle_update event (state ev)), Error = Err event\<rparr>))
        (listeners ev),
      ev\<lparr>state := snd (Handle_update event (state ev)),
         eventLog := eventLog ev @
           [\<lparr>Timestamp = now, Type = EventType event,
             Entry = fst (Handle_update event (state ev)), Error = Err event\<rparr>]\<rparr>)"
  by (simp add: Handle_def logEvent_def Let_def split_beta)

text \<open>
  C2. For every event the derived message is the one of the table: a Build event with
  status InProgress, Complete or Failed gives \<open>Build started for artifact <id>\<close>,
  \<open>Build completed for artifact <id>\<close> or \<open>Build failed for artifact <id>\<close>, a Deploy
  event with these statuses gives \<open>Deploy started\<close>, \<open>Deploy complete\<close> or
  \<open>Deploy failed\<close>, and every other pair of kind and status gives the empty message,
  every Port event among them whatever it carries.
\<close>

theorem Handle_message_table:
  "fst (Handle_update event st) =
     messageTable (EventType event) (Status event) (Artifact event) \<and>
   fst (Handle_update (event\<lparr>EventType := Port\<rparr>) st) = []"
proof
  show "fst (Handle_update event st) =
          messageTable (EventType event) (Status event) (Artifact event)"
    by (cases "EventType event"; cases "Status event") (simp_all add: Handle_update_def)
  show "fst (Handle_update (event\<lparr>EventType := Port\<rparr>) st) = []"
    by (simp add: Handle_update_def)
qed

text \<open>
  C3. From the empty initial state, handling Build/artifact-a/InProgress,
  Build/artifact-a/Complete, Deploy/InProgress, Deploy/Complete and Port/{8080\<rightarrow>80} in
  this order leaves the build state with artifact-a Complete (and nothing else), the
  deploy status Complete and the forwarded ports \<open>[{8080\<rightarrow>80}]\<close>. The fields of the
  events that the claim does not name, the clock readings and the deploy status of the
  initial state are arbitrary.
\<close>

theorem Handle_fold_example:
  "state (HandleAll
     [(t1, e1\<lparr>EventType := Build, Artifact := ''artifact-a'', Status := InProgress\<rparr>),
      (t2, e2\<lparr>EventType := Build, Artifact := ''artifact-a'', Status := Complete\<rparr>),
      (t3, e3\<lparr>EventType := Deploy, Status := InProgress\<rparr>),
      (t4, e4\<lparr>EventType := Deploy, Status := Complete\<rparr>),
      (t5, e5\<lparr>EventType := Port, PortInfo := Some \<lparr>LocalPort = 8080, RemotePort = 80\<rparr>\<rparr>)]
     (initialHandler d)) =
   \<lparr>BuildState_Artifacts = [''artifact-a'' \<mapsto> Complete], DeployState_Status = Complete,
    PortState_ForwardedPorts = [Some \<lparr>LocalPort = 8080, RemotePort = 80\<rparr>]\<rparr>"
  by (simp add: Handle_eq Handle_update_state initialHandler_def)

text \<open>
  C4. \<open>Handle\<close> returns the acknowledgement and a nil error for every event, and for an
  event whose kind is none of Build, Deploy and Port it leaves the build state, the
  deploy state and the port state as they were.
\<close>

theorem Handle_unknown_kind:
  "fst (Handle now event ev) = Inr () \<and>
   (EventType event \<noteq> Build \<and> EventType event \<noteq> Deploy \<and> EventType event \<noteq> Port \<longrightarrow>
      state (snd (snd (Handle now event ev))) = state ev)"
  by (simp add: Handle_eq Handle_update_state)

theorem Handle_unknown_kind_witness:
  "fst (Handle 7 \<lparr>EventType = OtherKind ''Sync'', Artifact = ''a'', Status = Failed,
                  PortInfo = None, Err = ''boom''\<rparr> (initialHandler Complete)) = Inr () \<and>
   state (snd (snd (Handle 7 \<lparr>EventType = OtherKind ''Sync'', Artifact = ''a'', Status = Failed,
                  PortInfo = None, Err = ''boom''\<rparr> (initialHandler Complete)))) =
     state (initialHandler Complete)"
  using Handle_unknown_kind [of 7 "\<lparr>EventType = OtherKind ''Sync'', Artifact = ''a'',
                  Status = Failed, PortInfo = None, Err = ''boom''\<rparr>" "initialHandler Complete"]
  by simp

text \<open>
  C5. Every call of \<open>Handle\<close> appends exactly one entry to the log: the log afterwards
  is the log before followed by the entry with the clock reading of the call, the kind
  of the event, the derived message and the error field of the event as it is. This
  holds for every event, of whatever kind.
\<close>

theorem Handle_appends_one_entry:
  "eventLog (snd (snd (Handle now event ev))) =
     eventLog ev @
       [\<lparr>Timestamp = now, Type = EventType event,
         Entry = messageTable (EventType event) (Status event) (Artifact event),
         Error = Err event\<rparr>]"
  by (simp add: Handle_eq Handle_update_entry)

text \<open>
  C7. \<open>Handle\<close> changes only the part of the state that belongs to the kind of the
  event: a Build event leaves the deploy status and the forwarded ports as they were,
  a Deploy event the build state and the forwarded ports, a Port event the build state
  and the deploy status; a Port event appends its port descriptor to the forwarded
  ports, whatever the list already holds.
\<close>

theorem Handle_frame:
  "(EventType event = Build \<longrightarrow>
      DeployState_Status (state (snd (snd (Handle now event ev)))) =
        DeployState_Status (state ev) \<and>
      PortState_ForwardedPorts (state (snd (snd (Handle now event ev)))) =
        PortState_ForwardedPorts (state ev)) \<and>
   (EventType event = Deploy \<longrightarrow>
      BuildState_Artifacts (state (snd (snd (Handle now event ev)))) =
        BuildState_Artifacts (state ev) \<and>
      PortState_ForwardedPorts (state (snd (snd (Handle now event ev)))) =
        PortState_ForwardedPorts (state ev)) \<and>
   (EventType event = Port \<longrightarrow>
      BuildState_Artifacts (state (snd (snd (Handle now event ev)))) =
        BuildState_Artifacts (state ev) \<and>
      DeployState_Status (state (snd (snd (Handle now event ev)))) =
        DeployState_Status (state ev) \<and>
      PortState_ForwardedPorts (state (snd (snd (Handle now event ev)))) =
        PortState_ForwardedPorts (state ev) @ [PortInfo event])"
  by (simp add: Handle_eq Handle_update_state)

theorem Handle_frame_witness:
  "DeployState_Status (state (snd (snd (Handle 1 (exampleEvent Build) exampleHandler)))) =
     InProgress \<and>
   PortState_ForwardedPorts (state (snd (snd (Handle 1 (exampleEvent Build) exampleHandler)))) =
     [Some \<lparr>LocalPort = 8080, RemotePort = 80\<rparr>] \<and>
   BuildState_Artifacts (state (snd (snd (Handle 2 (exampleEvent Deploy) exampleHandler)))) =
     [''a'' \<mapsto> InProgress] \<and>
   PortState_ForwardedPorts (state (snd (snd (Handle 2 (exampleEvent Deploy) exampleHandler)))) =
     [Some \<lparr>LocalPort = 8080, RemotePort = 80\<rparr>] \<and>
   BuildState_Artifacts (state (snd (snd (Handle 3 (exampleEvent Port) exampleHandler)))) =
     [''a'' \<mapsto> InProgress] \<and>
   DeployState_Status (state (snd (snd (Handle 3 (exampleEvent Port) exampleHandler)))) =
     InProgress \<and>
   PortState_ForwardedPorts (state (snd (snd (Handle 3 (exampleEvent Port) exampleHandler)))) =
     [Some \<lparr>LocalPort = 8080, RemotePort = 80\<rparr>, Some \<lparr>LocalPort = 8080, RemotePort = 80\<rparr>]"
proof -
  have k: "EventType (exampleEvent k) = k" for k by (simp add: exampleEvent_def)
  have p: "PortInfo (exampleEvent k) = Some \<lparr>LocalPort = 8080, RemotePort = 80\<rparr>" for k
    by (simp add: exampleEvent_def)
  have s: "state exampleHandler =
     \<lparr>BuildState_Artifacts = [''a'' \<mapsto> InProgress], DeployState_Status = InProgress,
      PortState_ForwardedPorts = [Some \<lparr>LocalPort = 8080, RemotePort = 80\<rparr>]\<rparr>"
    by (simp add: exampleHandler_def)
  show ?thesis
    using Handle_frame [of "exampleEvent Build" 1 exampleHandler]
      Handle_frame [of "exampleEvent Deploy" 2 exampleHandler]
      Handle_frame [of "exampleEvent Port" 3 exampleHandler]
    by (simp add: k p s)
qed

subsection \<open>newStatusServer\<close>

text \<open>
  C8. With the empty address \<open>newStatusServer\<close> returns the empty stop function and a
  nil error and attempts no bind: the network is as it was. When the bind on a
  non-empty address fails with \<open>err\<close>, it returns the empty stop function and \<open>err\<close>
  wrapped under \<open>creating listener\<close>; one bind was attempted, and no listener is open
  or served that was not before. Calling the empty stop function changes nothing.
\<close>

theorem newStatusServer_disabled_or_bind_failure:
  "newStatusServer binding [] w = ((NoOp, None), w) \<and>
   (port \<noteq> [] \<and> binding port = Inl err \<longrightarrow>
      fst (newStatusServer binding port w) = (NoOp, Some (Wrapped ''creating listener'' err)) \<and>
      listening (snd (newStatusServer binding port w)) = listening w \<and>
      serving (snd (newStatusServer binding port w)) = serving w \<and>
      attempts (snd (newStatusServer binding port w)) = attempts w @ [port]) \<and>
   (\<forall>w'. call NoOp w' = w')"
  by (simp add: newStatusServer_def net_Listen_def)

theorem newStatusServer_disabled_or_bind_failure_witness:
  "newStatusServer (refusing (New ''address already in use'')) ''localhost:50051''
     \<lparr>attempts = [], listening = [], serving = []\<rparr> =
   ((NoOp, Some (Wrapped ''creating listener'' (New ''address already in use''))),
    \<lparr>attempts = [''localhost:50051''], listening = [], serving = []\<rparr>)"
  using newStatusServer_disabled_or_bind_failure
    [of "refusing (New ''address already in use'')"
        "\<lparr>attempts = [], listening = [], serving = []\<rparr>"
        "''localhost:50051''" "New ''address already in use''"]
  by (simp add: prod_eq_iff refusing_def)

subsection \<open>EventLog: the registration on return\<close>

lemma replay_completes_iff:
  "fst (replay es str) = None \<longleftrightarrow> (\<forall>k<length es. outcome str (length (sent str) + k) = None)"
proof (induction es arbitrary: str)
  case Nil
  show ?case by simp
next
  case (Cons e es)
  show ?case
  proof (cases "outcome str (length (sent str))")
    case None
    then have r: "replay (e # es) str = replay es (str\<lparr>sent := sent str @ [e]\<rparr>)"
      by (simp add: Send_def)
    have "(\<forall>k<length (e # es). outcome str (length (sent str) + k) = None) \<longleftrightarrow>
          (\<forall>k<length es. outcome str (length (sent str) + Suc k) = None)"
      using None by (auto simp: less_Suc_eq_0_disj)
    with Cons.IH [of "str\<lparr>sent := sent str @ [e]\<rparr>"] r show ?thesis by simp
  next
    case (Some err)
    then have "fst (replay (e # es) str) = Some err" by (simp add: Send_def)
    moreover from Some have "\<not> (\<forall>k<length (e # es). outcome str (length (sent str) + k) = None)"
      by (auto intro: exI [of _ 0])
    ultimately show ?thesis by simp
  qed
qed

lemma EventLog_handler:
  "snd (snd (EventLog c arriving str ev)) =
     (if fst (replay (eventLog ev) str) = None then RegisterListener c ev else ev)"
  by (cases "replay (eventLog ev) str"; cases "fst (replay (eventLog ev) str)")
     (auto simp: EventLog_def Let_def split: prod.splits)

lemma EventLog_replay_error:
  "fst (replay (eventLog ev) str) = Some err \<Longrightarrow> fst (EventLog c arriving str ev) = Some err"
  by (cases "replay (eventLog ev) str") (auto simp: EventLog_def)

text \<open>
  C6, as the code has it. \<open>EventLog\<close> never removes a registration; it leaves the state
  and the log alone. When a send of the replay fails, the call returns before it
  registers, and the listeners are as they were. When every send of the replay succeeds,
  the call registers its channel and the channel stays among the listeners, also when
  the call returns because a later send fails.
\<close>

theorem EventLog_never_unsubscribes:
  "state (snd (snd (EventLog c arriving str ev))) = state ev \<and>
   eventLog (snd (snd (EventLog c arriving str ev))) = eventLog ev \<and>
   ((\<exists>k<length (eventLog ev). outcome str (length (sent str) + k) \<noteq> None) \<longrightarrow>
      fst (EventLog c arriving str ev) \<noteq> None \<and>
      listeners (snd (snd (EventLog c arriving str ev))) = listeners ev) \<and>
   ((\<forall>k<length (eventLog ev). outcome str (length (sent str) + k) = None) \<longrightarrow>
      listeners (snd (snd (EventLog c arriving str ev))) = listeners ev @ [c])"
proof (cases "fst (replay (eventLog ev) str)")
  case None
  then have "\<forall>k<length (eventLog ev). outcome str (length (sent str) + k) = None"
    by (simp add: replay_completes_iff)
  with None show ?thesis by (simp add: EventLog_handler RegisterListener_def)
next
  case (Some err)
  then have "\<not> (\<forall>k<length (eventLog ev). outcome str (length (sent str) + k) = None)"
    using replay_completes_iff [of "eventLog ev" str] by simp
  then have ex: "\<exists>k<length (eventLog ev). outcome str (length (sent str) + k) \<noteq> None"
    by blast
  have "fst (EventLog c arriving str ev) \<noteq> None"
    using EventLog_replay_error [OF Some] by simp
  moreover have "snd (snd (EventLog c arriving str ev)) = ev"
    using Some by (simp add: EventLog_handler)
  ultimately show ?thesis using ex by auto
qed

theorem EventLog_never_unsubscribes_witness:
  "fst (EventLog 3 [exampleEntry 2] \<lparr>outcome = failsFrom 1 (New ''EOF''), sent = []\<rparr>
      ((initialHandler Complete)\<lparr>eventLog := [exampleEntry 1]\<rparr>)) = Some (New ''EOF'') \<and>
   listeners (snd (snd (EventLog 3 [exampleEntry 2] \<lparr>outcome = failsFrom 1 (New ''EOF''), sent = []\<rparr>
      ((initialHandler Complete)\<lparr>eventLog := [exampleEntry 1]\<rparr>)))) = [3] \<and>
   fst (EventLog 3 [exampleEntry 2] \<lparr>outcome = failsFrom 0 (New ''EOF''), sent = []\<rparr>
      ((initialHandler Complete)\<lparr>eventLog := [exampleEntry 1]\<rparr>)) \<noteq> None \<and>
   listeners (snd (snd (EventLog 3 [exampleEntry 2] \<lparr>outcome = failsFrom 0 (New ''EOF''), sent = []\<rparr>
      ((initialHandler Complete)\<lparr>eventLog := [exampleEntry 1]\<rparr>)))) = []"
proof -
  have a: "fst (EventLog 3 [exampleEntry 2] \<lparr>outcome = failsFrom 1 (New ''EOF''), sent = []\<rparr>
      ((initialHandler Complete)\<lparr>eventLog := [exampleEntry 1]\<rparr>)) = Some (New ''EOF'')"
    by (simp add: EventLog_def initialHandler_def RegisterListener_def Send_def failsFrom_def)
  show ?thesis
    using a
      EventLog_never_unsubscribes [of 3 "[exampleEntry 2]" "\<lparr>outcome = failsFrom 1 (New ''EOF''), sent = []\<rparr>"
        "(initialHandler Complete)\<lparr>eventLog := [exampleEntry 1]\<rparr>"]
      EventLog_never_unsubscribes [of 3 "[exampleEntry 2]" "\<lparr>outcome = failsFrom 0 (New ''EOF''), sent = []\<rparr>"
        "(initialHandler Complete)\<lparr>eventLog := [exampleEntry 1]\<rparr>"]
    by (simp add: initialHandler_def failsFrom_def)
qed

text \<open>
  C6 as stated fails: with an empty log, one entry arriving and a stream whose first
  send fails, \<open>EventLog\<close> returns the error and its channel 0 is still a listener.
\<close>

theorem EventLog_unsubscribes_counterexample:
  "fst (EventLog 0 [exampleEntry 1] \<lparr>outcome = failsFrom 0 (New ''EOF''), sent = []\<rparr>
          (initialHandler Complete)) = Some (New ''EOF'') \<and>
   listeners (snd (snd (EventLog 0 [exampleEntry 1] \<lparr>outcome = failsFrom 0 (New ''EOF''), sent = []\<rparr>
          (initialHandler Complete)))) = [0]"
  by (simp add: EventLog_def initialHandler_def RegisterListener_def Send_def failsFrom_def)

subsection \<open>EventLog: replay, then live entries\<close>

lemma Send_cases:
  obtains (ok) "Send str entry = (None, str\<lparr>sent := sent str @ [entry]\<rparr>)"
  | (fail) err where "Send str entry = (Some err, str)"
  by (cases "outcome str (length (sent str))") (auto simp: Send_def)

lemma run_append:
  "run (as @ bs) s = (case run as s of None \<Rightarrow> None | Some s' \<Rightarrow> run bs s')"
  by (induction as arbitrary: s) (auto split: option.splits)

lemma step_eventLog:
  "step a s = Some s' \<Longrightarrow> eventLog (handler s') = eventLog (handler s) @ appended [a]"
proof (cases a)
  case (Sub c)
  assume "step a s = Some s'"
  with Sub show ?thesis
    by (cases rule: Send_cases [of "peers s c" "case subscribers s c of Replaying (e # _) \<Rightarrow> e | Forwarding e \<Rightarrow> e"])
       (auto simp: RegisterListener_def split: point.splits list.splits)
next
  case (Append e)
  assume "step a s = Some s'"
  with Append show ?thesis by (auto simp: logEvent_def split: if_splits)
next
  case Deliver
  assume "step a s = Some s'"
  with Deliver show ?thesis by (auto split: list.splits if_splits)
qed

lemma appended_append: "appended (as @ bs) = appended as @ appended bs"
  by (induction as rule: appended.induct) simp_all

lemma run_eventLog:
  "run as s = Some s' \<Longrightarrow> eventLog (handler s') = eventLog (handler s) @ appended as"
proof (induction as arbitrary: s)
  case Nil
  then show ?case by simp
next
  case (Cons a as)
  then obtain s1 where s1: "step a s = Some s1" and r: "run as s1 = Some s'"
    by (auto split: option.splits)
  have "appended (a # as) = appended [a] @ appended as"
    using appended_append [of "[a]" as] by simp
  with step_eventLog [OF s1] Cons.IH [OF r] show ?case by simp
qed


lemma step_Sub_other:
  assumes "step (Sub c') s = Some s'" and "c' \<noteq> c"
  shows "subscribers s' c = subscribers s c \<and> peers s' c = peers s c \<and>
         pending s' = pending s \<and>
         (listeners (handler s') = listeners (handler s) \<or>
          listeners (handler s') = listeners (handler s) @ [c'])"
  using assms
  by (auto simp: RegisterListener_def split: point.splits list.splits prod.splits option.splits)

lemma step_Sub_self:
  assumes "step (Sub c) s = Some s'"
  shows "pending s' = pending s \<and>
     (case subscribers s c of
        AtEntry \<Rightarrow> subscribers s' c = Replaying (eventLog (handler s)) \<and>
                   peers s' c = peers s c \<and> handler s' = handler s
      | Replaying [] \<Rightarrow> subscribers s' c = Receiving \<and> peers s' c = peers s c \<and>
                   handler s' = RegisterListener c (handler s)
      | Replaying (e # rest) \<Rightarrow> handler s' = handler s \<and>
          ((subscribers s' c = Replaying rest \<and> sent (peers s' c) = sent (peers s c) @ [e]) \<or>
           (\<exists>err. subscribers s' c = Returned err))
      | Receiving \<Rightarrow> False
      | Forwarding e \<Rightarrow> handler s' = handler s \<and>
          ((subscribers s' c = Receiving \<and> sent (peers s' c) = sent (peers s c) @ [e]) \<or>
           (\<exists>err. subscribers s' c = Returned err))
      | Returned err \<Rightarrow> False)"
proof (cases "subscribers s c")
  case (Replaying rest)
  show ?thesis
  proof (cases rest)
    case Nil
    with Replaying assms show ?thesis by auto
  next
    case (Cons e es)
    with Replaying assms show ?thesis
      by (cases rule: Send_cases [of "peers s c" e]) auto
  qed
next
  case (Forwarding e)
  with assms show ?thesis
    by (cases rule: Send_cases [of "peers s c" e]) auto
qed (use assms in auto)

lemma step_Append:
  assumes "step (Append e) s = Some s'"
  shows "pending s = [] \<and> subscribers s' = subscribers s \<and> peers s' = peers s \<and>
         listeners (handler s') = listeners (handler s) \<and>
         pending s' = map (\<lambda>c. (c, e)) (listeners (handler s))"
  using assms by (auto simp: logEvent_def split: if_splits)

lemma step_Deliver:
  assumes "step Deliver s = Some s'"
  shows "\<exists>c e rest. pending s = (c, e) # rest \<and> subscribers s c = Receiving \<and>
           subscribers s' = (subscribers s)(c := Forwarding e) \<and> pending s' = rest \<and>
           peers s' = peers s \<and> handler s' = handler s"
  using assms by (auto split: list.splits if_splits)

lemma outstanding_fanout:
  "map snd (filter (\<lambda>send. fst send = c) (map (\<lambda>c'. (c', e)) ls)) = replicate (count_list ls c) e"
  by (induction ls) auto

lemma idle_step:
  assumes "idle c str s" and "a \<noteq> Sub c" and "step a s = Some s'"
  shows "idle c str s'"
proof (cases a)
  case (Sub c')
  with assms(2) have "c' \<noteq> c" by simp
  from step_Sub_other [OF assms(3) [unfolded Sub] this] assms(1) \<open>c' \<noteq> c\<close>
  show ?thesis by (auto simp: idle_def unattached_def)
next
  case (Append e)
  from step_Append [OF assms(3) [unfolded Append]] assms(1)
  show ?thesis by (auto simp: idle_def unattached_def)
next
  case Deliver
  from step_Deliver [OF assms(3) [unfolded Deliver]] assms(1)
  show ?thesis by (auto simp: idle_def unattached_def)
qed

lemma idle_run:
  assumes "idle c str s" and "Sub c \<notin> set as" and "run as s = Some s'"
  shows "idle c str s'"
  using assms
proof (induction as arbitrary: s)
  case Nil
  then show ?case by simp
next
  case (Cons a as)
  from Cons.prems(3) obtain s1 where s1: "step a s = Some s1" and r: "run as s1 = Some s'"
    by (auto split: option.splits)
  from Cons.prems(2) have "a \<noteq> Sub c" "Sub c \<notin> set as" by auto
  from idle_step [OF Cons.prems(1) this(1) s1] this(2) r show ?case by (rule Cons.IH)
qed

lemma replaying_step:
  assumes "replaying c snapshot s" and "step a s = Some s'"
  shows "replaying c snapshot s'"
proof (cases a)
  case (Sub c')
  show ?thesis
  proof (cases "c' = c")
    case True
    from step_Sub_self [OF assms(2) [unfolded Sub True]] assms(1)
    show ?thesis
      by (auto simp: replaying_def unattached_def split: point.splits list.splits)
  next
    case False
    from step_Sub_other [OF assms(2) [unfolded Sub] False] assms(1) False
    show ?thesis
      by (auto simp: replaying_def unattached_def split: point.splits)
  qed
next
  case (Append e)
  from step_Append [OF assms(2) [unfolded Append]] assms(1)
  show ?thesis by (auto simp: replaying_def unattached_def split: point.splits)
next
  case Deliver
  from step_Deliver [OF assms(2) [unfolded Deliver]] assms(1)
  show ?thesis by (auto simp: replaying_def unattached_def split: point.splits if_splits)
qed

lemma replaying_run:
  assumes "replaying c snapshot s" and "run as s = Some s'"
  shows "replaying c snapshot s'"
  using assms
proof (induction as arbitrary: s)
  case Nil
  then show ?case by simp
next
  case (Cons a as)
  from Cons.prems(2) obtain s1 where s1: "step a s = Some s1" and r: "run as s1 = Some s'"
    by (auto split: option.splits)
  from replaying_step [OF Cons.prems(1) s1] r show ?case by (rule Cons.IH)
qed

lemma live_step:
  assumes "live c got s" and "step a s = Some s'"
  shows "live c (got @ appended [a]) s'"
proof (cases a)
  case (Sub c')
  show ?thesis
  proof (cases "c' = c")
    case True
    from step_Sub_self [OF assms(2) [unfolded Sub True]] assms(1)
    show ?thesis unfolding Sub
      by (auto simp: live_def held_def outstanding_def split: point.splits list.splits)
  next
    case False
    from step_Sub_other [OF assms(2) [unfolded Sub] False] assms(1) False
    show ?thesis unfolding Sub
      by (auto simp: live_def held_def outstanding_def split: point.splits)
  qed
next
  case (Append e)
  from step_Append [OF assms(2) [unfolded Append]] assms(1)
  show ?thesis unfolding Append
    by (auto simp: live_def held_def outstanding_def outstanding_fanout split: point.splits)
next
  case Deliver
  from step_Deliver [OF assms(2) [unfolded Deliver]] assms(1)
  show ?thesis unfolding Deliver
    by (auto simp: live_def held_def outstanding_def split: point.splits if_splits)
qed

lemma live_run:
  assumes "live c got s" and "run as s = Some s'"
  shows "live c (got @ appended as) s'"
  using assms
proof (induction as arbitrary: s got)
  case Nil
  then show ?case by simp
next
  case (Cons a as)
  from Cons.prems(2) obtain s1 where s1: "step a s = Some s1" and r: "run as s1 = Some s'"
    by (auto split: option.splits)
  have "appended (a # as) = appended [a] @ appended as"
    using appended_append [of "[a]" as] by simp
  with Cons.IH [OF live_step [OF Cons.prems(1) s1] r] show ?case by simp
qed

text \<open>
  The steps of a subscriber through the replay loop are the loop \<open>replay\<close> of the
  function run on its own: either every send succeeds and the subscriber registers, or
  a send fails and the subscriber returns the error before it registers.
\<close>

lemma replay_as_steps:
  assumes "subscribers s c = Replaying rest"
  shows "case replay rest (peers s c) of
           (None, str) \<Rightarrow>
             run (replicate (Suc (length rest)) (Sub c)) s =
               Some (s\<lparr>handler := RegisterListener c (handler s),
                       subscribers := (subscribers s)(c := Receiving),
                       peers := (peers s)(c := str)\<rparr>)
         | (Some err, str) \<Rightarrow>
             (\<exists>n<length rest. run (replicate (Suc n) (Sub c)) s =
                Some (s\<lparr>subscribers := (subscribers s)(c := Returned err),
                        peers := (peers s)(c := str)\<rparr>))"
  using assms
proof (induction rest arbitrary: s)
  case Nil
  then show ?case by simp
next
  case (Cons e es)
  show ?case
  proof (cases rule: Send_cases [of "peers s c" e])
    case ok
    let ?s1 = "s\<lparr>subscribers := (subscribers s)(c := Replaying es),
                 peers := (peers s)(c := (peers s c)\<lparr>sent := sent (peers s c) @ [e]\<rparr>)\<rparr>"
    from ok Cons.prems have st: "step (Sub c) s = Some ?s1" by simp
    have rp: "replay (e # es) (peers s c) = replay es (peers ?s1 c)" using ok by simp
    have sub: "subscribers ?s1 c = Replaying es" by simp
    show ?thesis
    proof (cases "replay es (peers ?s1 c)")
      case (Pair r str)
      show ?thesis
      proof (cases r)
        case None
        with Pair Cons.IH [OF sub] st rp show ?thesis by simp
      next
        case (Some err)
        with Pair Cons.IH [OF sub] obtain n where n: "n < length es"
          "run (replicate (Suc n) (Sub c)) ?s1 =
             Some (?s1\<lparr>subscribers := (subscribers ?s1)(c := Returned err),
                       peers := (peers ?s1)(c := str)\<rparr>)"
          by auto
        from n(2) st have "run (replicate (Suc (Suc n)) (Sub c)) s =
            Some (s\<lparr>subscribers := (subscribers s)(c := Returned err),
                    peers := (peers s)(c := str)\<rparr>)" by simp
        with n(1) Some Pair rp show ?thesis
          by (auto simp del: run.simps replicate.simps intro!: exI [of _ "Suc n"])
      qed
    qed
  next
    case (fail err)
    from fail Cons.prems have "run (replicate (Suc 0) (Sub c)) s =
         Some (s\<lparr>subscribers := (subscribers s)(c := Returned err),
                 peers := (peers s)(c := peers s c)\<rparr>)" by simp
    with fail show ?thesis
      by (auto simp del: run.simps replicate.simps intro!: exI [of _ 0])
  qed
qed

text \<open>
  Every run that takes a subscriber from the entry of the function to the channel
  receive has the shape that the next theorem speaks of: steps before the subscriber
  enters the replay loop, the entry into the loop, steps up to the registration, the
  registration, and the steps after it.
\<close>

lemma Returned_step:
  assumes "subscribers s c = Returned err" and "step a s = Some s'"
  shows "subscribers s' c = Returned err"
proof (cases a)
  case (Sub c')
  show ?thesis
  proof (cases "c' = c")
    case True
    from step_Sub_self [OF assms(2) [unfolded Sub True]] assms(1) show ?thesis by simp
  next
    case False
    from step_Sub_other [OF assms(2) [unfolded Sub] False] assms(1) show ?thesis by simp
  qed
next
  case (Append e)
  from step_Append [OF assms(2) [unfolded Append]] assms(1) show ?thesis by simp
next
  case Deliver
  from step_Deliver [OF assms(2) [unfolded Deliver]] assms(1) show ?thesis by auto
qed

lemma Returned_run:
  assumes "subscribers s c = Returned err" and "run as s = Some s'"
  shows "subscribers s' c = Returned err"
  using assms
proof (induction as arbitrary: s)
  case Nil
  then show ?case by simp
next
  case (Cons a as)
  from Cons.prems(2) obtain s1 where s1: "step a s = Some s1" and r: "run as s1 = Some s'"
    by (auto split: option.splits)
  from Returned_step [OF Cons.prems(1) s1] r show ?case by (rule Cons.IH)
qed

lemma first_step_of:
  assumes "subscribers s0 c = AtEntry" and "run as s0 = Some s" and "subscribers s c \<noteq> AtEntry"
  shows "\<exists>pre rest s1 s2. as = pre @ Sub c # rest \<and> Sub c \<notin> set pre \<and>
           run pre s0 = Some s1 \<and> subscribers s1 c = AtEntry \<and>
           step (Sub c) s1 = Some s2 \<and> run rest s2 = Some s"
  using assms
proof (induction as arbitrary: s0)
  case Nil
  then show ?case by simp
next
  case (Cons a as)
  from Cons.prems(2) obtain s1 where s1: "step a s0 = Some s1" and r: "run as s1 = Some s"
    by (auto split: option.splits)
  show ?case
  proof (cases "a = Sub c")
    case True
    with s1 r Cons.prems(1)
    have "a # as = [] @ Sub c # as \<and> Sub c \<notin> set [] \<and> run [] s0 = Some s0 \<and>
        subscribers s0 c = AtEntry \<and> step (Sub c) s0 = Some s1 \<and> run as s1 = Some s" by simp
    then show ?thesis by blast
  next
    case False
    have "subscribers s1 c = AtEntry"
    proof (cases a)
      case (Sub c')
      with False have "c' \<noteq> c" by simp
      from step_Sub_other [OF s1 [unfolded Sub] this] Cons.prems(1) show ?thesis by simp
    next
      case (Append e)
      from step_Append [OF s1 [unfolded Append]] Cons.prems(1) show ?thesis by simp
    next
      case Deliver
      from step_Deliver [OF s1 [unfolded Deliver]] Cons.prems(1) show ?thesis by auto
    qed
    from Cons.IH [OF this r Cons.prems(3)]
    obtain pre rest t1 t2 where d: "as = pre @ Sub c # rest" "Sub c \<notin> set pre"
      "run pre s1 = Some t1" "subscribers t1 c = AtEntry" "step (Sub c) t1 = Some t2"
      "run rest t2 = Some s"
      by blast
    from d s1 False have "a # as = (a # pre) @ Sub c # rest \<and> Sub c \<notin> set (a # pre) \<and>
        run (a # pre) s0 = Some t1 \<and> subscribers t1 c = AtEntry \<and>
        step (Sub c) t1 = Some t2 \<and> run rest t2 = Some s"
      by simp
    then show ?thesis by blast
  qed
qed

lemma registration_step_of:
  assumes "subscribers s2 c = Replaying rest" and "run as s2 = Some s"
    and "subscribers s c = Receiving"
  shows "\<exists>mid post s3 s4. as = mid @ Sub c # post \<and> run mid s2 = Some s3 \<and>
           subscribers s3 c = Replaying [] \<and> step (Sub c) s3 = Some s4 \<and>
           run post s4 = Some s"
  using assms
proof (induction as arbitrary: s2 rest)
  case Nil
  then show ?case by simp
next
  case (Cons a as)
  from Cons.prems(2) obtain t where t: "step a s2 = Some t" and r: "run as t = Some s"
    by (auto split: option.splits)
  show ?case
  proof (cases "a = Sub c \<and> rest = []")
    case True
    with t r Cons.prems(1) have "a # as = [] @ Sub c # as \<and> run [] s2 = Some s2 \<and>
        subscribers s2 c = Replaying [] \<and> step (Sub c) s2 = Some t \<and> run as t = Some s"
      by simp
    then show ?thesis by blast
  next
    case False
    have "(\<exists>rest'. subscribers t c = Replaying rest') \<or> (\<exists>err. subscribers t c = Returned err)"
    proof (cases a)
      case (Sub c')
      show ?thesis
      proof (cases "c' = c")
        case True
        with False Sub obtain e es where "rest = e # es" by (cases rest) auto
        with step_Sub_self [OF t [unfolded Sub True]] Cons.prems(1) show ?thesis by auto
      next
        case ne: False
        from step_Sub_other [OF t [unfolded Sub] ne] Cons.prems(1) show ?thesis by simp
      qed
    next
      case (Append e)
      from step_Append [OF t [unfolded Append]] Cons.prems(1) show ?thesis by simp
    next
      case Deliver
      from step_Deliver [OF t [unfolded Deliver]] Cons.prems(1) show ?thesis by auto
    qed
    then show ?thesis
    proof
      assume "\<exists>rest'. subscribers t c = Replaying rest'"
      then obtain rest' where "subscribers t c = Replaying rest'" ..
      from Cons.IH [OF this r Cons.prems(3)]
      obtain mid post s3 s4 where d: "as = mid @ Sub c # post" "run mid t = Some s3"
        "subscribers s3 c = Replaying []" "step (Sub c) s3 = Some s4" "run post s4 = Some s"
        by blast
      from d t have "a # as = (a # mid) @ Sub c # post \<and> run (a # mid) s2 = Some s3 \<and>
          subscribers s3 c = Replaying [] \<and> step (Sub c) s3 = Some s4 \<and> run post s4 = Some s"
        by simp
      then show ?thesis by blast
    next
      assume "\<exists>err. subscribers t c = Returned err"
      then obtain err where "subscribers t c = Returned err" ..
      from Returned_run [OF this r] Cons.prems(3) show ?thesis by simp
    qed
  qed
qed


lemma attach_decomposition:
  assumes "subscribers s0 c = AtEntry" and "run as s0 = Some s"
    and "subscribers s c = Receiving"
  shows "\<exists>pre mid post s1 s2 s3 s4.
           as = pre @ Sub c # mid @ Sub c # post \<and> Sub c \<notin> set pre \<and>
           run pre s0 = Some s1 \<and> step (Sub c) s1 = Some s2 \<and>
           run mid s2 = Some s3 \<and> subscribers s3 c = Replaying [] \<and>
           step (Sub c) s3 = Some s4 \<and> run post s4 = Some s"
proof -
  from assms(3) have "subscribers s c \<noteq> AtEntry" by simp
  from first_step_of [OF assms(1,2) this]
  obtain pre rest s1 s2 where d1: "as = pre @ Sub c # rest" "Sub c \<notin> set pre"
    "run pre s0 = Some s1" "subscribers s1 c = AtEntry" "step (Sub c) s1 = Some s2"
    "run rest s2 = Some s"
    by blast
  from step_Sub_self [OF d1(5)] d1(4)
  have "subscribers s2 c = Replaying (eventLog (handler s1))" by simp
  from registration_step_of [OF this d1(6) assms(3)]
  obtain mid post s3 s4 where d2: "rest = mid @ Sub c # post" "run mid s2 = Some s3"
    "subscribers s3 c = Replaying []" "step (Sub c) s3 = Some s4" "run post s4 = Some s"
    by blast
  from d1 d2 show ?thesis by blast
qed

text \<open>
  C1, as the code has it. Calls of \<open>Append\<close> come one after the other, and any number
  of subscribers run beside them; the system starts anywhere, with the subscriber \<open>c\<close>
  yet to enter \<open>EventLog\<close> and its channel unknown to the handler. The subscriber
  enters the replay loop after the steps \<open>pre\<close> (in \<open>s1\<close>), registers after the steps
  \<open>mid\<close> (in \<open>s3\<close>), and after the steps \<open>post\<close> waits at the channel receive. No
  lock joins the entry into the loop and the registration, so \<open>mid\<close> may append. What
  the subscriber has then received, counting the entry of an append under way that is
  still to be sent to it, is what its peer had before, the log as it was when the replay
  loop was entered, and the entries appended after the registration, in this order:
  nothing twice and nothing out of order, but the entries appended by \<open>mid\<close> never
  arrive. It is the whole log if and only if \<open>mid\<close> appends nothing.
\<close>

theorem EventLog_replay_then_live:
  assumes "subscribers s0 c = AtEntry"
    and "c \<notin> set (listeners (handler s0))" and "c \<notin> fst ` set (pending s0)"
    and "Sub c \<notin> set pre" and "run pre s0 = Some s1"
    and "step (Sub c) s1 = Some s2"
    and "run mid s2 = Some s3" and "subscribers s3 c = Replaying []"
    and "step (Sub c) s3 = Some s4"
    and "run post s4 = Some s" and "subscribers s c = Receiving"
  shows "eventLog (handler s1) = eventLog (handler s0) @ appended pre \<and>
         eventLog (handler s3) = eventLog (handler s1) @ appended mid \<and>
         eventLog (handler s) = eventLog (handler s3) @ appended post \<and>
         sent (peers s c) @ outstanding c s =
           sent (peers s0 c) @ eventLog (handler s1) @ appended post \<and>
         sent (peers s c) @ outstanding c s =
           sent (peers s0 c) @ eventLog (handler s1) @
             drop (length (eventLog (handler s3))) (eventLog (handler s)) \<and>
         (sent (peers s c) @ outstanding c s = sent (peers s0 c) @ eventLog (handler s)
            \<longleftrightarrow> appended mid = [])"
proof -
  have l1: "eventLog (handler s1) = eventLog (handler s0) @ appended pre"
    using assms(5) by (rule run_eventLog)
  have l2: "eventLog (handler s2) = eventLog (handler s1)"
    using step_eventLog [OF assms(6)] by simp
  have l3: "eventLog (handler s3) = eventLog (handler s2) @ appended mid"
    using assms(7) by (rule run_eventLog)
  have l4: "eventLog (handler s4) = eventLog (handler s3)"
    using step_eventLog [OF assms(9)] by simp
  have l5: "eventLog (handler s) = eventLog (handler s4) @ appended post"
    using assms(10) by (rule run_eventLog)
  have "idle c (peers s0 c) s0" using assms(1-3) by (simp add: idle_def unattached_def)
  from this assms(4,5) have i1: "idle c (peers s0 c) s1" by (rule idle_run)
  with step_Sub_self [OF assms(6)]
  have "replaying c (sent (peers s0 c) @ eventLog (handler s1)) s2"
    by (auto simp: idle_def replaying_def unattached_def)
  from this assms(7) have "replaying c (sent (peers s0 c) @ eventLog (handler s1)) s3"
    by (rule replaying_run)
  with assms(8) have r3: "sent (peers s3 c) = sent (peers s0 c) @ eventLog (handler s1)"
    and u3: "unattached c s3" by (auto simp: replaying_def)
  from step_Sub_self [OF assms(9)] assms(8) r3 u3
  have "live c (sent (peers s0 c) @ eventLog (handler s1)) s4"
    by (auto simp: live_def held_def outstanding_def unattached_def RegisterListener_def
        filter_empty_conv)
  from this assms(10) have "live c ((sent (peers s0 c) @ eventLog (handler s1)) @ appended post) s"
    by (rule live_run)
  with assms(11) have got: "sent (peers s c) @ outstanding c s =
      sent (peers s0 c) @ eventLog (handler s1) @ appended post"
    by (simp add: live_def held_def)
  have dr: "drop (length (eventLog (handler s3))) (eventLog (handler s)) = appended post"
    using l4 l5 by simp
  have "(sent (peers s0 c) @ eventLog (handler s1) @ appended post =
         sent (peers s0 c) @ eventLog (handler s)) \<longleftrightarrow> appended mid = []"
    using l2 l3 l4 l5 by auto
  with l1 l2 l3 l4 l5 got dr show ?thesis by simp
qed

theorem EventLog_replay_then_live_witness:
  "map_option (view 0)
     (run ([Sub 1, Sub 1, Append (exampleEntry 1), Deliver, Sub 1] @ Sub 0 #
           [Append (exampleEntry 2), Deliver, Sub 1, Sub 0] @ Sub 0 #
           [Append (exampleEntry 3), Deliver, Deliver, Sub 1, Sub 0])
        (startSystem Complete (failsFrom 9 (New ''EOF'')))) =
   Some ([exampleEntry 1, exampleEntry 2, exampleEntry 3], [1, 0], Receiving,
         [exampleEntry 1, exampleEntry 3], []) \<and>
   appended [Sub 1, Sub 1, Append (exampleEntry 1), Deliver, Sub 1] = [exampleEntry 1] \<and>
   appended [Append (exampleEntry 2), Deliver, Sub 1, Sub 0] = [exampleEntry 2] \<and>
   appended [Append (exampleEntry 3), Deliver, Deliver, Sub 1, Sub 0] = [exampleEntry 3]"
proof -
  let ?init = "startSystem Complete (failsFrom 9 (New ''EOF''))"
  let ?pre = "[Sub 1, Sub 1, Append (exampleEntry 1), Deliver, Sub 1]"
  let ?mid = "[Append (exampleEntry 2), Deliver, Sub 1, Sub 0]"
  let ?post = "[Append (exampleEntry 3), Deliver, Deliver, Sub 1, Sub 0]"
  let ?t1 = "the (run ?pre ?init)"
  let ?t2 = "the (step (Sub 0) ?t1)"
  let ?t3 = "the (run ?mid ?t2)"
  let ?t4 = "the (step (Sub 0) ?t3)"
  let ?fin = "the (run ?post ?t4)"
  note defs = startSystem_def initialHandler_def RegisterListener_def logEvent_def Send_def
      failsFrom_def
  have h1: "subscribers ?init 0 = AtEntry" by (simp add: defs)
  have h2: "0 \<notin> set (listeners (handler ?init))" by (simp add: defs)
  have h3: "0 \<notin> fst ` set (pending ?init)" by (simp add: defs)
  have h4: "Sub 0 \<notin> set ?pre" by simp
  have h5: "run ?pre ?init = Some ?t1" by (simp add: defs)
  have h6: "step (Sub 0) ?t1 = Some ?t2" by (simp add: defs)
  have h7: "run ?mid ?t2 = Some ?t3" by (simp add: defs)
  have h8: "subscribers ?t3 0 = Replaying []" by (simp add: defs)
  have h9: "step (Sub 0) ?t3 = Some ?t4" by (simp add: defs)
  have h10: "run ?post ?t4 = Some ?fin" by (simp add: defs)
  have h11: "subscribers ?fin 0 = Receiving" by (simp add: defs)
  from EventLog_replay_then_live [OF h1 h2 h3 h4 h5 h6 h7 h8 h9 h10 h11]
  show ?thesis by (simp add: defs view_def)
qed

text \<open>
  C1 as stated fails: the subscriber 0 enters the replay loop on an empty log, entry 1
  is appended, the subscriber registers, entry 2 is appended, delivered and forwarded.
  The subscriber waits for the next entry; entries 1 and 2 were appended and it has
  received entry 2 only.
\<close>

theorem EventLog_ordering_counterexample:
  "map_option (view 0)
     (run [Sub 0, Append (exampleEntry 1), Sub 0, Append (exampleEntry 2), Deliver, Sub 0]
        (startSystem Complete (failsFrom 9 (New ''EOF'')))) =
   Some ([exampleEntry 1, exampleEntry 2], [0], Receiving, [exampleEntry 2], []) \<and>
   appended [Sub 0, Append (exampleEntry 1), Sub 0, Append (exampleEntry 2), Deliver, Sub 0] =
     [exampleEntry 1, exampleEntry 2] \<and>
   [exampleEntry 2] \<noteq> [exampleEntry 1, exampleEntry 2]"
  by (simp add: startSystem_def initialHandler_def RegisterListener_def logEvent_def Send_def
      failsFrom_def view_def)

end
